theory Spec2Isabelle
  imports Main
begin

section \<open>Strings and the Python string primitives used by the parser\<close>

text \<open>
  The parser of \<^verbatim>\<open>process_pgn_file.py\<close> works on Python \<^verbatim>\<open>str\<close> values and on
  Python integers.  A string is modelled as a \<^typ>\<open>string\<close>, one \<^typ>\<open>char\<close> for each code
  point (so the alphabet of the model is the code points 0 to 255), and every index is an
  \<^typ>\<open>int\<close>, because the code uses \<open>-1\<close> as an index value and Python gives negative
  offsets a meaning of their own.
\<close>

text \<open>
  \<^verbatim>\<open>str.find(sub, start)\<close>: the lowest index \<open>i\<close> with \<open>start \<le> i\<close> at which \<open>sub\<close> occurs,
  or \<open>-1\<close>.  A negative \<open>start\<close> counts from the end of the string and is clamped at 0; a
  \<open>start\<close> beyond the end finds nothing.  \<open>find_scan sub xs i\<close> walks the rest \<open>xs\<close> of the
  string, whose first character has index \<open>i\<close>.
\<close>

fun find_scan :: "string \<Rightarrow> string \<Rightarrow> nat \<Rightarrow> int" where
  "find_scan sub [] i = (if sub = [] then int i else - 1)"
| "find_scan sub (c # cs) i =
     (if take (length sub) (c # cs) = sub then int i else find_scan sub cs (Suc i))"

definition py_find :: "string \<Rightarrow> string \<Rightarrow> int \<Rightarrow> int" where
  "py_find s sub start =
     (let n = int (length s);
          st = (if start < 0 then max 0 (start + n) else start)
      in if n < st then - 1 else find_scan sub (drop (nat st) s) (nat st))"

text \<open>
  The offset at which \<^verbatim>\<open>str.find\<close> really starts for a given \<open>start\<close> argument.
\<close>

definition effective_start :: "string \<Rightarrow> int \<Rightarrow> nat" where
  "effective_start s off = nat (if off < 0 then max 0 (off + int (length s)) else off)"

text \<open>
  A slice \<^verbatim>\<open>s[start:end:]\<close>: each bound is first brought into \<open>0 .. len(s)\<close> (a negative
  bound counts from the end), an absent \<open>end\<close> is the length, and the slice is empty when
  the bounds cross.
\<close>

definition slice_index :: "nat \<Rightarrow> int \<Rightarrow> nat" where
  "slice_index n i = (if i < 0 then nat (max 0 (i + int n)) else min (nat i) n)"

definition py_slice :: "string \<Rightarrow> int \<Rightarrow> int option \<Rightarrow> string" where
  "py_slice s start end_opt =
     (let n = length s;
          a = slice_index n start;
          b = (case end_opt of None \<Rightarrow> n | Some e \<Rightarrow> slice_index n e)
      in take (b - a) (drop a s))"

section \<open>\<^verbatim>\<open>scan_for_next_brace\<close>\<close>

text \<open>
  The two delimiters, as \<^verbatim>\<open>strip_balanced_braces_from_string\<close> binds them before it
  passes them to the scanner (whose parameters for them are \<open>lb\<close> and \<open>rb\<close> here), and the
  test for either of them.
\<close>

definition left_brace :: string where
  "left_brace = ''{''"

definition right_brace :: string where
  "right_brace = ''}''"

definition is_brace :: "char \<Rightarrow> bool" where
  "is_brace c = (c = CHR ''{'' \<or> c = CHR ''}'')"

text \<open>
  The result is the triple \<open>(index_found, is_right_brace, is_left_brace)\<close> of the source,
  computed by the same nest of tests on the two independent searches.
\<close>

definition scan_for_next_brace :: "string \<Rightarrow> int \<Rightarrow> string \<Rightarrow> string \<Rightarrow> int \<times> bool \<times> bool" where
  "scan_for_next_brace string_to_scan index_to_start_scan lb rb =
     (let value_if_no_brace_found = - 1;
          index_left_brace_found = py_find string_to_scan lb index_to_start_scan;
          index_right_brace_found = py_find string_to_scan rb index_to_start_scan
      in if index_right_brace_found = - 1 then
           (if index_left_brace_found = - 1 then (value_if_no_brace_found, False, False)
            else (index_left_brace_found, False, True))
         else
           (if index_left_brace_found = - 1 then (index_right_brace_found, True, False)
            else if index_right_brace_found < index_left_brace_found
                 then (index_right_brace_found, True, False)
            else (index_left_brace_found, False, True)))"

section \<open>Fatal errors\<close>

text \<open>
  The four fatal conditions of the parser, each standing for the message the code builds:
  ``No blank line found after headers.'', ``No valid movetext found'', ``PGN terminated with
  a still-unmatched left brace, encountered at index \<open>i\<close>'' and ``Unexpected excess right
  brace, encountered at index \<open>j\<close>''.
\<close>

datatype pgn_error =
    MissingHeaderSeparator
  | EmptyMovetext
  | UnmatchedOpeningDelimiter int
  | UnexpectedClosingDelimiter int

text \<open>
  Modelled from the spec: \<^verbatim>\<open>fatal_pgn_error\<close> lives in the module \<^verbatim>\<open>error_processing\<close>,
  which is not among the sources.  The specification describes it as the fault reporter
  that ``terminates the overall operation'' and ``never returns control to the caller that
  invoked it'', so a call ends the computation with the error as its result.
\<close>

definition fatal_pgn_error :: "pgn_error \<Rightarrow> pgn_error + 'a" where
  "fatal_pgn_error e = Inl e"

section \<open>\<^verbatim>\<open>strip_balanced_braces_from_string\<close>\<close>

text \<open>
  \<^verbatim>\<open>save_current_substring\<close> appends a slice of the string to \<open>list_of_substrings\<close>, which
  is passed in and returned.
\<close>

definition save_current_substring :: "string \<Rightarrow> int \<Rightarrow> int \<Rightarrow> string list \<Rightarrow> string list" where
  "save_current_substring string_to_strip start end list_of_substrings =
     (if end \<ge> start then list_of_substrings @ [py_slice string_to_strip start (Some end)]
      else list_of_substrings)"

text \<open>
  Facts about the scanner that the termination of the two loops rests on: a search for a
  single character that succeeds lands inside the string, at or after the offset.
\<close>

lemma find_scan_char:
  "find_scan [c] xs i =
     (if c \<in> set xs then int (i + length (takeWhile (\<lambda>x. x \<noteq> c) xs)) else - 1)"
  by (induction xs arbitrary: i) auto

lemma takeWhile_neq_less: "c \<in> set xs \<Longrightarrow> length (takeWhile (\<lambda>x. x \<noteq> c) xs) < length xs"
  by (induction xs) auto

lemma py_find_char_bounds:
  assumes "py_find s [c] b = r" "r \<noteq> - 1"
  shows "b \<le> r \<and> 0 \<le> r \<and> r < int (length s)"
proof -
  define st where "st = (if b < 0 then max 0 (b + int (length s)) else b)"
  have st: "0 \<le> st" "b \<le> st" by (auto simp: st_def)
  from assms have le: "st \<le> int (length s)"
    by (auto simp: py_find_def st_def Let_def split: if_splits)
  with assms have r: "r = find_scan [c] (drop (nat st) s) (nat st)"
    by (auto simp: py_find_def st_def Let_def split: if_splits)
  with assms(2) have mem: "c \<in> set (drop (nat st) s)"
    by (auto simp: find_scan_char split: if_splits)
  from takeWhile_neq_less[OF mem] r mem st le show ?thesis
    by (auto simp: find_scan_char)
qed

lemma scan_found_bounds:
  assumes "scan_for_next_brace s b left_brace right_brace = (idx, r, l)" "idx \<noteq> - 1"
  shows "b \<le> idx \<and> 0 \<le> idx \<and> idx < int (length s)"
  using assms py_find_char_bounds[of s "CHR ''{''" b] py_find_char_bounds[of s "CHR ''}''" b]
  by (auto simp: scan_for_next_brace_def left_brace_def right_brace_def Let_def split: if_splits)

lemma scan_flags:
  assumes "scan_for_next_brace s b lb rb = (idx, r, l)"
  shows "(idx = - 1) = (\<not> r \<and> \<not> l)" and "\<not> (r \<and> l)"
  using assms by (auto simp: scan_for_next_brace_def Let_def split: if_splits)

text \<open>
  The \<^verbatim>\<open>while net_left_braces > 0\<close> loop of \<^verbatim>\<open>skip_over_remainder_of_balanced_expression\<close>.
  The loop is entered with \<open>net_left_braces = 1\<close>, so its body always runs before its test
  is first decided by the body; \<open>skip_loop\<close> is one run of the body followed by the test.
  Its state is \<open>net_left_braces\<close> and \<open>base_index_for_search\<close>; \<open>index_found\<close> is what the
  function returns once the loop is left.
\<close>

function skip_loop :: "string \<Rightarrow> int \<Rightarrow> int \<Rightarrow> int \<Rightarrow> pgn_error + int" where
  "skip_loop string_to_strip index_after_first_left_brace net_left_braces base_index_for_search =
     (case scan_for_next_brace string_to_strip base_index_for_search left_brace right_brace of
        (index_found, is_right_brace, is_left_brace) \<Rightarrow>
          if index_found = - 1
          then fatal_pgn_error (UnmatchedOpeningDelimiter (index_after_first_left_brace - 1))
          else let net = (if is_right_brace then net_left_braces - 1
                          else if is_left_brace then net_left_braces + 1
                          else net_left_braces)
               in if net > 0
                  then skip_loop string_to_strip index_after_first_left_brace net (index_found + 1)
                  else Inr index_found)"
  by pat_completeness auto
termination
  apply (relation "measure (\<lambda>(s, i, n, b). nat (int (length s) + 1 - b))")
   apply simp
  apply (auto dest!: scan_found_bounds[OF sym])
  done

declare skip_loop.simps [simp del]

definition skip_over_remainder_of_balanced_expression :: "string \<Rightarrow> int \<Rightarrow> pgn_error + int" where
  "skip_over_remainder_of_balanced_expression string_to_strip index_after_first_left_brace =
     skip_loop string_to_strip index_after_first_left_brace 1 index_after_first_left_brace"

lemma skip_loop_bounds:
  "skip_loop s i n b = Inr j \<Longrightarrow> b \<le> j \<and> j < int (length s)"
proof (induction s i n b rule: skip_loop.induct)
  case (1 s i n b)
  obtain idx r l where sc: "scan_for_next_brace s b left_brace right_brace = (idx, r, l)"
    by (cases "scan_for_next_brace s b left_brace right_brace") auto
  show ?case
  proof (cases "idx = - 1")
    case True
    with "1.prems" sc show ?thesis
      by (simp add: skip_loop.simps[of s i n b] fatal_pgn_error_def)
  next
    case False
    note bounds = scan_found_bounds[OF sc False]
    define net where "net = (if r then n - 1 else if l then n + 1 else n)"
    show ?thesis
    proof (cases "net > 0")
      case True
      with "1.prems" sc False have "skip_loop s i net (idx + 1) = Inr j"
        by (simp add: skip_loop.simps[of s i n b] net_def)
          from "1.IH"[OF sc[symmetric] refl \<open>idx \<noteq> - 1\<close> net_def True this] bounds
      show ?thesis by simp
    next
      case False
      with "1.prems" sc \<open>idx \<noteq> - 1\<close> have "j = idx"
        by (simp add: skip_loop.simps[of s i n b] net_def)
      with bounds show ?thesis by simp
    qed
  qed
qed

lemma skip_over_bounds:
  "skip_over_remainder_of_balanced_expression s i = Inr j \<Longrightarrow> i \<le> j \<and> j < int (length s)"
  unfolding skip_over_remainder_of_balanced_expression_def by (rule skip_loop_bounds)

text \<open>
  The main loop, \<^verbatim>\<open>while beginning_of_current_substring < len(string_to_strip)\<close>, with
  \<open>list_of_substrings\<close> as its second state component.  The three \<^verbatim>\<open>if\<close> statements of
  the body are taken in the order of the source; when none of them applies the body ends and
  the loop test is taken again on an unchanged state.
\<close>

function strip_loop :: "string \<Rightarrow> int \<Rightarrow> string list \<Rightarrow> pgn_error + string list" where
  "strip_loop string_to_strip beginning_of_current_substring list_of_substrings =
     (if beginning_of_current_substring < int (length string_to_strip) then
        (case scan_for_next_brace string_to_strip beginning_of_current_substring
                left_brace right_brace of
           (index_found, is_right_brace, is_left_brace) \<Rightarrow>
             if is_right_brace
             then fatal_pgn_error (UnexpectedClosingDelimiter index_found)
             else if index_found = - 1
             then Inr (save_current_substring string_to_strip beginning_of_current_substring
                         (int (length string_to_strip)) list_of_substrings)
             else if is_left_brace
             then (case skip_over_remainder_of_balanced_expression string_to_strip
                          (index_found + 1) of
                     Inl e \<Rightarrow> Inl e
                   | Inr index_end \<Rightarrow>
                       strip_loop string_to_strip (index_end + 1)
                         (save_current_substring string_to_strip beginning_of_current_substring
                            index_found list_of_substrings))
             else strip_loop string_to_strip beginning_of_current_substring list_of_substrings)
      else Inr list_of_substrings)"
  by pat_completeness auto
termination
  apply (relation "measure (\<lambda>(s, b, acc). nat (int (length s) - b))")
    apply simp
   apply (auto dest!: scan_found_bounds[OF sym] skip_over_bounds)[1]
  apply (auto dest!: scan_flags(1)[OF sym])
  done

declare strip_loop.simps [simp del]

definition strip_balanced_braces_from_string :: "string \<Rightarrow> pgn_error + string" where
  "strip_balanced_braces_from_string string_to_strip =
     (case strip_loop string_to_strip 0 [] of
        Inl e \<Rightarrow> Inl e
      | Inr list_of_substrings \<Rightarrow> Inr (concat list_of_substrings))"

section \<open>The tokenizer\<close>

text \<open>
  Whitespace as \<^verbatim>\<open>str.split()\<close> and \<^verbatim>\<open>str.lstrip()\<close> without arguments see it: the
  code points below 256 for which \<^verbatim>\<open>str.isspace\<close> holds, which are the ASCII controls
  9 to 13 and 28 to 31, the space, NEL (133) and the no-break space (160).
\<close>

definition py_isspace :: "char \<Rightarrow> bool" where
  "py_isspace c =
     (let n = (of_char c :: nat)
      in (9 \<le> n \<and> n \<le> 13) \<or> (28 \<le> n \<and> n \<le> 32) \<or> n = 133 \<or> n = 160)"

text \<open>
  \<^verbatim>\<open>str.split()\<close> without arguments, as the interpreter runs it: skip whitespace; stop at
  the end of the string; otherwise take the characters up to the next whitespace as one
  item and go on behind it.
\<close>

function py_split :: "string \<Rightarrow> string list" where
  "py_split s =
     (let rest = dropWhile py_isspace s
      in if rest = [] then []
         else takeWhile (\<lambda>c. \<not> py_isspace c) rest
                # py_split (dropWhile (\<lambda>c. \<not> py_isspace c) rest))"
  by pat_completeness auto
termination
proof (relation "measure length", goal_cases)
  case 1
  show ?case by simp
next
  case (2 s rest)
  then obtain c cs where rest: "rest = c # cs" "\<not> py_isspace c"
    by (metis hd_dropWhile list.collapse)
  have "length (dropWhile (\<lambda>c. \<not> py_isspace c) rest) \<le> length cs"
    using rest by (simp add: length_dropWhile_le)
  moreover have "length rest \<le> length s"
    using 2 by (simp add: length_dropWhile_le)
  ultimately show ?case using rest by simp
qed

declare py_split.simps [simp del]

text \<open>
  The character class \<^verbatim>\<open>[A-Za-z()]\<close> of the regular expression
  \<^verbatim>\<open>^[^A-Za-z()]+\<close>.  The expression is anchored at the start of the string and its
  repetition is greedy, so its only match is the longest leading run of characters outside
  the class, and \<^verbatim>\<open>sub\<close> replaces that run by the empty string.
\<close>

definition is_alpha_or_paren :: "char \<Rightarrow> bool" where
  "is_alpha_or_paren c =
     (let n = (of_char c :: nat)
      in (65 \<le> n \<and> n \<le> 90) \<or> (97 \<le> n \<and> n \<le> 122) \<or> c = CHR ''('' \<or> c = CHR '')'')"

definition strip_leading_movenumber_indication :: "string \<Rightarrow> string" where
  "strip_leading_movenumber_indication string_to_strip =
     drop (length (takeWhile (\<lambda>c. \<not> is_alpha_or_paren c) string_to_strip)) string_to_strip"

definition tokenize_pgnstring :: "string \<Rightarrow> string list" where
  "tokenize_pgnstring pgnstring =
     (let tokenlist = py_split pgnstring;
          tokenlist = map strip_leading_movenumber_indication tokenlist;
          tokenlist = filter (\<lambda>token. token \<noteq> []) tokenlist
      in tokenlist)"

section \<open>Extracting the movetext and the whole pipeline\<close>

text \<open>
  \<^verbatim>\<open>id_text_between_first_two_blankish_lines\<close> is imported from the module
  \<^verbatim>\<open>utilities\<close>, which is not among the sources; it is a parameter of the two functions
  that depend on it.  It returns a pair of indices, each of which may be \<^verbatim>\<open>None\<close>.
\<close>

type_synonym boundary_locator = "string \<Rightarrow> int option \<times> int option"

definition pgn_error_no_blank_line_after_headers :: "pgn_error + string" where
  "pgn_error_no_blank_line_after_headers = fatal_pgn_error MissingHeaderSeparator"

definition extract_game_1_movetext :: "boundary_locator \<Rightarrow> string \<Rightarrow> pgn_error + string" where
  "extract_game_1_movetext id_text_between_first_two_blankish_lines string_read_from_file =
     (case id_text_between_first_two_blankish_lines string_read_from_file of
        (start_index, end_index) \<Rightarrow>
          (case start_index of
             None \<Rightarrow> pgn_error_no_blank_line_after_headers
           | Some start \<Rightarrow>
               let movetext_string =
                     (case end_index of
                        None \<Rightarrow> py_slice string_read_from_file start None
                      | Some e \<Rightarrow> py_slice string_read_from_file start (Some e))
               in Inr (dropWhile py_isspace movetext_string)))"

definition clean_and_parse_string_read_from_file ::
    "boundary_locator \<Rightarrow> string \<Rightarrow> pgn_error + string list" where
  "clean_and_parse_string_read_from_file locator string_read_from_file =
     (case extract_game_1_movetext locator string_read_from_file of
        Inl e \<Rightarrow> Inl e
      | Inr pgnstring \<Rightarrow>
          (case strip_balanced_braces_from_string pgnstring of
             Inl e \<Rightarrow> Inl e
           | Inr stripped \<Rightarrow>
               if stripped = [] then fatal_pgn_error EmptyMovetext
               else Inr (tokenize_pgnstring stripped)))"

section \<open>Reference definitions\<close>

text \<open>
  Splitting on maximal runs of whitespace, read off the string one character at a time:
  \<open>cur\<close> is the burst collected so far; a whitespace character ends it, and an empty
  burst is never emitted.
\<close>

fun bursts_from :: "string \<Rightarrow> string \<Rightarrow> string list" where
  "bursts_from cur [] = (if cur = [] then [] else [cur])"
| "bursts_from cur (c # cs) =
     (if py_isspace c then (if cur = [] then bursts_from [] cs else cur # bursts_from [] cs)
      else bursts_from (cur @ [c]) cs)"

definition whitespace_bursts :: "string \<Rightarrow> string list" where
  "whitespace_bursts s = bursts_from [] s"

text \<open>
  The offset, within the text that follows an opening brace, of the brace that closes it:
  \<open>closing d xs\<close> reads \<open>xs\<close> at nesting depth \<open>d\<close> and is \<open>None\<close> when the depth never
  comes back to 0.
\<close>

fun closing :: "nat \<Rightarrow> string \<Rightarrow> nat option" where
  "closing d [] = None"
| "closing d (c # cs) =
     (if c = CHR ''{'' then map_option Suc (closing (Suc d) cs)
      else if c = CHR ''}'' then (if d \<le> 1 then Some 0 else map_option Suc (closing (d - 1) cs))
      else map_option Suc (closing d cs))"

text \<open>
  Stripping in one pass with a depth counter: \<open>p\<close> is the index of the next character,
  \<open>d\<close> the nesting depth and \<open>opened\<close> the index of the brace that opened the annotation
  being read.
\<close>

fun depth_strip :: "nat \<Rightarrow> nat \<Rightarrow> nat \<Rightarrow> string \<Rightarrow> pgn_error + string" where
  "depth_strip p d opened [] =
     (if d = 0 then Inr [] else Inl (UnmatchedOpeningDelimiter (int opened)))"
| "depth_strip p d opened (c # cs) =
     (if c = CHR ''{'' then depth_strip (Suc p) (Suc d) (if d = 0 then p else opened) cs
      else if c = CHR ''}'' then
        (if d = 0 then Inl (UnexpectedClosingDelimiter (int p))
         else depth_strip (Suc p) (d - 1) opened cs)
      else if d = 0 then
        map_sum id ((#) c) (depth_strip (Suc p) d opened cs)
      else depth_strip (Suc p) d opened cs)"

text \<open>
  Balanced text: read at depth \<open>d\<close>, no closing brace comes at depth 0 and the text ends
  at depth 0.
\<close>

fun balanced :: "nat \<Rightarrow> string \<Rightarrow> bool" where
  "balanced d [] = (d = 0)"
| "balanced d (c # cs) =
     (if c = CHR ''{'' then balanced (Suc d) cs
      else if c = CHR ''}'' then 0 < d \<and> balanced (d - 1) cs
      else balanced d cs)"

text \<open>The characters outside every top-level annotation span, in source order.\<close>

fun outside_annotations :: "nat \<Rightarrow> string \<Rightarrow> string" where
  "outside_annotations d [] = []"
| "outside_annotations d (c # cs) =
     (if c = CHR ''{'' then outside_annotations (Suc d) cs
      else if c = CHR ''}'' then outside_annotations (d - 1) cs
      else if d = 0 then c # outside_annotations d cs
      else outside_annotations d cs)"

text \<open>
  Text read at depth \<open>d > 0\<close> in which the annotation that is open is never closed: the end
  of the text comes with the depth still positive.
\<close>

fun never_closed :: "nat \<Rightarrow> string \<Rightarrow> bool" where
  "never_closed d [] = (0 < d)"
| "never_closed d (c # cs) =
     (if c = CHR ''{'' then never_closed (Suc d) cs
      else if c = CHR ''}'' then 1 < d \<and> never_closed (d - 1) cs
      else never_closed d cs)"

text \<open>
  Text with balanced annotations none of which is nested (\<open>inside\<close> tells whether an
  annotation is open), and the text with every \<^verbatim>\<open>{...}\<close> span deleted.
\<close>

fun non_nested :: "bool \<Rightarrow> string \<Rightarrow> bool" where
  "non_nested inside [] = (\<not> inside)"
| "non_nested inside (c # cs) =
     (if c = CHR ''{'' then \<not> inside \<and> non_nested True cs
      else if c = CHR ''}'' then inside \<and> non_nested False cs
      else non_nested inside cs)"

fun delete_spans :: "bool \<Rightarrow> string \<Rightarrow> string" where
  "delete_spans inside [] = []"
| "delete_spans inside (c # cs) =
     (if inside then (if c = CHR ''}'' then delete_spans False cs else delete_spans True cs)
      else if c = CHR ''{'' then delete_spans True cs
      else c # delete_spans False cs)"

section \<open>Properties of the scanner\<close>

lemma find_scan_char_ge: "find_scan [c] xs i = - 1 \<or> int i \<le> find_scan [c] xs i"
  by (simp add: find_scan_char)

lemma scan_list:
  "(let l = find_scan ''{'' xs i; r = find_scan ''}'' xs i
    in if r = - 1 then (if l = - 1 then (- 1, False, False) else (l, False, True))
       else (if l = - 1 then (r, True, False)
             else if r < l then (r, True, False) else (l, False, True)))
   = (case dropWhile (\<lambda>c. \<not> is_brace c) xs of
        [] \<Rightarrow> (- 1, False, False)
      | c # _ \<Rightarrow> (int (i + length (takeWhile (\<lambda>c. \<not> is_brace c) xs)),
                  c = CHR ''}'', c = CHR ''{''))"
proof (induction xs arbitrary: i)
  case Nil
  show ?case by simp
next
  case (Cons x xs)
  consider "x = CHR ''{''" | "x = CHR ''}''" | "\<not> is_brace x"
    by (auto simp: is_brace_def)
  then show ?case
  proof cases
    case 1
    with find_scan_char_ge[of "CHR ''}''" xs "Suc i"] show ?thesis
      by (auto simp: is_brace_def Let_def)
  next
    case 2
    with find_scan_char_ge[of "CHR ''{''" xs "Suc i"] show ?thesis
      by (auto simp: is_brace_def Let_def)
  next
    case 3
    then have l: "find_scan ''{'' (x # xs) i = find_scan ''{'' xs (Suc i)"
      and r: "find_scan ''}'' (x # xs) i = find_scan ''}'' xs (Suc i)"
      by (auto simp: is_brace_def)
    from 3 have d: "dropWhile (\<lambda>c. \<not> is_brace c) (x # xs) = dropWhile (\<lambda>c. \<not> is_brace c) xs"
      and t: "i + length (takeWhile (\<lambda>c. \<not> is_brace c) (x # xs))
                = Suc i + length (takeWhile (\<lambda>c. \<not> is_brace c) xs)"
      by simp_all
    show ?thesis unfolding l r d t by (rule Cons.IH)
  qed
qed

lemma scan_nat:
  "scan_for_next_brace s (int b) left_brace right_brace =
     (case dropWhile (\<lambda>c. \<not> is_brace c) (drop b s) of
        [] \<Rightarrow> (- 1, False, False)
      | c # _ \<Rightarrow> (int (b + length (takeWhile (\<lambda>c. \<not> is_brace c) (drop b s))),
                  c = CHR ''}'', c = CHR ''{''))"
proof (cases "b \<le> length s")
  case True
  then show ?thesis
    using scan_list[of "drop b s" b]
    by (simp add: scan_for_next_brace_def py_find_def left_brace_def right_brace_def Let_def)
next
  case False
  then show ?thesis
    by (simp add: scan_for_next_brace_def py_find_def left_brace_def right_brace_def Let_def)
qed

lemma dropWhile_Cons_props:
  "dropWhile P xs = c # ys \<Longrightarrow>
     length (takeWhile P xs) < length xs \<and> xs ! length (takeWhile P xs) = c \<and> \<not> P c"
  by (induction xs) (auto split: if_splits)

lemma py_find_norm: "py_find s sub off = py_find s sub (int (effective_start s off))"
proof (cases "off < 0")
  case True
  then show ?thesis
    by (cases "0 \<le> off + int (length s)") (simp_all add: py_find_def effective_start_def max_def)
next
  case False
  then show ?thesis by (simp add: effective_start_def)
qed

lemma scan_norm:
  "scan_for_next_brace s off lb rb = scan_for_next_brace s (int (effective_start s off)) lb rb"
  unfolding scan_for_next_brace_def py_find_norm[of s _ off, symmetric] ..

lemma scan_nat_props:
  assumes sc: "scan_for_next_brace s (int b) left_brace right_brace = (idx, r, l)"
  shows "if (\<exists>j. b \<le> j \<and> j < length s \<and> is_brace (s ! j))
         then int b \<le> idx \<and> idx < int (length s) \<and> is_brace (s ! nat idx) \<and>
              (\<forall>j. b \<le> j \<and> int j < idx \<longrightarrow> \<not> is_brace (s ! j)) \<and>
              r = (s ! nat idx = CHR ''}'') \<and> l = (s ! nat idx = CHR ''{'')
         else idx = - 1 \<and> \<not> r \<and> \<not> l"
proof -
  define xs where "xs = drop b s"
  define k where "k = length (takeWhile (\<lambda>c. \<not> is_brace c) xs)"
  show ?thesis
  proof (cases "dropWhile (\<lambda>c. \<not> is_brace c) xs")
    case Nil
    then have all: "\<forall>x\<in>set xs. \<not> is_brace x"
      by (simp add: dropWhile_eq_Nil_conv)
    have "\<not> is_brace (s ! j)" if "b \<le> j" "j < length s" for j
    proof -
      from that have "s ! j = xs ! (j - b)" "j - b < length xs"
        by (auto simp: xs_def)
      with all show ?thesis by (metis nth_mem)
    qed
    moreover from sc have "idx = - 1 \<and> \<not> r \<and> \<not> l"
      unfolding scan_nat Nil[unfolded xs_def] by simp
    ultimately show ?thesis by auto
  next
    case (Cons c ys)
    have res: "idx = int (b + k)" "r = (c = CHR ''}'')" "l = (c = CHR ''{'')"
      using sc unfolding scan_nat Cons[unfolded xs_def] k_def xs_def by simp_all
    from dropWhile_Cons_props[OF Cons] have c: "is_brace c" and klt: "k < length xs"
      and xk: "xs ! k = c"
      by (simp_all add: k_def)
    from klt have blt: "b + k < length s" and sk: "s ! (b + k) = xs ! k"
      by (auto simp: xs_def)
    have before: "\<not> is_brace (s ! j)" if "b \<le> j" "j < b + k" for j
    proof -
      from that klt have "s ! j = xs ! (j - b)" "j - b < k"
        by (auto simp: xs_def)
      then show ?thesis
        unfolding k_def by (metis nth_mem set_takeWhileD takeWhile_nth)
    qed
    have n: "nat idx = b + k" using res(1) by simp
    from c xk sk blt have ex: "\<exists>j. b \<le> j \<and> j < length s \<and> is_brace (s ! j)"
      by (intro exI[of _ "b + k"]) simp
    have 1: "int b \<le> idx" "idx < int (length s)" using res(1) blt by simp_all
    have 2: "is_brace (s ! nat idx)" using c xk sk n by simp
    have 3: "\<forall>j. b \<le> j \<and> int j < idx \<longrightarrow> \<not> is_brace (s ! j)"
      using before res(1) by simp
    have 4: "r = (s ! nat idx = CHR ''}'')" "l = (s ! nat idx = CHR ''{'')"
      using res(2,3) xk sk n by simp_all
    show ?thesis unfolding if_P[OF ex] using 1 2 3 4 by blast
  qed
qed

text \<open>
  Claim C5, as amended.  For every string and every start offset that is not negative,
  \<^verbatim>\<open>scan_for_next_brace\<close> returns the smallest index at or after the offset that holds a
  left or a right brace, with the flag of the brace found there; when no brace occurs at or
  after the offset the result is \<open>(-1, False, False)\<close>.
\<close>

theorem scan_for_next_brace_nearest:
  assumes "0 \<le> off"
  shows "case scan_for_next_brace s off left_brace right_brace of
           (idx, r, l) \<Rightarrow>
             if (\<exists>j. off \<le> j \<and> j < int (length s) \<and> is_brace (s ! nat j))
             then off \<le> idx \<and> idx < int (length s) \<and> is_brace (s ! nat idx) \<and>
                  (\<forall>j. off \<le> j \<and> j < idx \<longrightarrow> \<not> is_brace (s ! nat j)) \<and>
                  r = (s ! nat idx = CHR ''}'') \<and> l = (s ! nat idx = CHR ''{'')
             else idx = - 1 \<and> \<not> r \<and> \<not> l"
proof -
  obtain idx r l where sc: "scan_for_next_brace s off left_brace right_brace = (idx, r, l)"
    by (cases "scan_for_next_brace s off left_brace right_brace") auto
  define b where "b = nat off"
  from assms have off: "off = int b" by (simp add: b_def)
  note props = scan_nat_props[OF sc[unfolded off]]
  have ex_eq: "(\<exists>j. off \<le> j \<and> j < int (length s) \<and> is_brace (s ! nat j))
                 = (\<exists>j. b \<le> j \<and> j < length s \<and> is_brace (s ! j))"
  proof
    assume "\<exists>j. off \<le> j \<and> j < int (length s) \<and> is_brace (s ! nat j)"
    then obtain j where "off \<le> j" "j < int (length s)" "is_brace (s ! nat j)" by blast
    with off show "\<exists>j. b \<le> j \<and> j < length s \<and> is_brace (s ! j)"
      by (intro exI[of _ "nat j"]) auto
  next
    assume "\<exists>j. b \<le> j \<and> j < length s \<and> is_brace (s ! j)"
    then obtain j where "b \<le> j" "j < length s" "is_brace (s ! j)" by blast
    with off show "\<exists>j. off \<le> j \<and> j < int (length s) \<and> is_brace (s ! nat j)"
      by (intro exI[of _ "int j"]) auto
  qed
  show ?thesis
  proof (cases "\<exists>j. b \<le> j \<and> j < length s \<and> is_brace (s ! j)")
    case True
    with props have p: "int b \<le> idx" "idx < int (length s)" "is_brace (s ! nat idx)"
      "\<forall>j. b \<le> j \<and> int j < idx \<longrightarrow> \<not> is_brace (s ! j)"
      "r = (s ! nat idx = CHR ''}'')" "l = (s ! nat idx = CHR ''{'')"
      by simp_all
    have q: "\<forall>j. int b \<le> j \<and> j < idx \<longrightarrow> \<not> is_brace (s ! nat j)"
    proof (intro allI impI)
      fix j assume "int b \<le> j \<and> j < idx"
      then have "b \<le> nat j \<and> int (nat j) < idx" by linarith
      then show "\<not> is_brace (s ! nat j)"
        using p(4) by blast
    qed
    from p(1,2,3,5,6) q True show ?thesis
      unfolding off sc[unfolded off] ex_eq[unfolded off] by simp
  next
    case False
    with props show ?thesis
      unfolding off sc[unfolded off] ex_eq[unfolded off] by simp
  qed
qed

theorem scan_for_next_brace_nearest_witness:
  "(0::int) \<le> 1 \<and> scan_for_next_brace ''ab}{a'' 1 left_brace right_brace = (2, True, False)
     \<and> is_brace (''ab}{a'' ! nat 2)"
proof -
  have sc: "scan_for_next_brace ''ab}{a'' 1 left_brace right_brace = (2, True, False)"
    by code_simp
  have le: "(0::int) \<le> 1" by simp
  note t = scan_for_next_brace_nearest[OF le, where s = "''ab}{a''", unfolded sc prod.case]
  have "(2::int) \<noteq> - 1" by simp
  with t have "is_brace (''ab}{a'' ! nat 2)" by metis
  with sc le show ?thesis by blast
qed

text \<open>
  Claim C5 as stated, for every start offset, fails for a negative one: Python counts a
  negative \<open>start\<close> from the end of the string, so from offset \<open>-1\<close> the search in
  \<^verbatim>\<open>"{a"\<close> covers the last character only and reports no brace, although index 0 holds
  a left brace and \<open>-1 \<le> 0\<close>.
\<close>

theorem scan_negative_offset_counterexample:
  "scan_for_next_brace ''{a'' (- 1) left_brace right_brace = (- 1, False, False)
     \<and> (- 1 :: int) \<le> 0 \<and> (0::int) < int (length ''{a'') \<and> ''{a'' ! nat 0 = CHR ''{''"
  by code_simp

text \<open>
  Claim C10.  Every result of \<^verbatim>\<open>scan_for_next_brace\<close> is well formed, for every offset:
  the two flags are never both true; both are false exactly when the index is \<open>-1\<close>; and an
  index other than \<open>-1\<close> is at least the offset, lies inside the string, and holds the brace
  that the true flag names.
\<close>

theorem scan_for_next_brace_well_formed:
  "case scan_for_next_brace s off left_brace right_brace of
     (idx, r, l) \<Rightarrow>
       \<not> (r \<and> l) \<and> ((\<not> r \<and> \<not> l) = (idx = - 1)) \<and>
       (idx \<noteq> - 1 \<longrightarrow>
          off \<le> idx \<and> 0 \<le> idx \<and> idx < int (length s) \<and>
          r = (s ! nat idx = CHR ''}'') \<and> l = (s ! nat idx = CHR ''{''))"
proof -
  obtain idx r l where sc: "scan_for_next_brace s off left_brace right_brace = (idx, r, l)"
    by (cases "scan_for_next_brace s off left_brace right_brace") auto
  note flags = scan_flags[OF sc]
  have found: "off \<le> idx \<and> 0 \<le> idx \<and> idx < int (length s) \<and>
          r = (s ! nat idx = CHR ''}'') \<and> l = (s ! nat idx = CHR ''{'')" if ne: "idx \<noteq> - 1"
  proof -
    from sc have "scan_for_next_brace s (int (effective_start s off)) left_brace right_brace
                    = (idx, r, l)"
      by (simp add: scan_norm[symmetric])
    from scan_nat_props[OF this] ne
    have "r = (s ! nat idx = CHR ''}'')" "l = (s ! nat idx = CHR ''{'')"
      by (auto split: if_splits)
    with scan_found_bounds[OF sc ne] show ?thesis by simp
  qed
  have a: "\<not> (r \<and> l)" by (rule flags(2))
  have b: "(\<not> r \<and> \<not> l) = (idx = - 1)" using flags(1) by blast
  have c: "idx \<noteq> - 1 \<longrightarrow>
          off \<le> idx \<and> 0 \<le> idx \<and> idx < int (length s) \<and>
          r = (s ! nat idx = CHR ''}'') \<and> l = (s ! nat idx = CHR ''{'')"
    using found by blast
  show ?thesis unfolding sc prod.case by (rule conjI[OF a conjI[OF b c]])
qed

theorem scan_for_next_brace_well_formed_witness:
  "scan_for_next_brace ''ab}{a'' 3 left_brace right_brace = (3, False, True) \<and>
   (3::int) \<noteq> - 1 \<and> (''ab}{a'' ! nat 3 = CHR ''{'') = True"
proof -
  have sc: "scan_for_next_brace ''ab}{a'' 3 left_brace right_brace = (3, False, True)"
    by code_simp
  have ne: "(3::int) \<noteq> - 1" by simp
  note t = scan_for_next_brace_well_formed[where s = "''ab}{a''" and off = 3,
              unfolded sc prod.case]
  with ne have "True = (''ab}{a'' ! nat 3 = CHR ''{'')" by blast
  with sc ne show ?thesis by blast
qed

section \<open>Properties of the tokenizer\<close>

lemma py_split_Nil: "py_split [] = []"
  by (simp add: py_split.simps[of "[]"])

lemma py_split_space: "py_isspace c \<Longrightarrow> py_split (c # cs) = py_split cs"
  by (simp add: py_split.simps[of "c # cs"] py_split.simps[of cs])

lemma py_split_word:
  "\<not> py_isspace c \<Longrightarrow>
     py_split (c # cs) = (c # takeWhile (\<lambda>c. \<not> py_isspace c) cs)
                           # py_split (dropWhile (\<lambda>c. \<not> py_isspace c) cs)"
  by (simp add: py_split.simps[of "c # cs"])

lemma bursts_from_py_split:
  "bursts_from cur xs =
     (if cur = [] then py_split xs
      else (cur @ takeWhile (\<lambda>c. \<not> py_isspace c) xs)
             # py_split (dropWhile (\<lambda>c. \<not> py_isspace c) xs))"
proof (induction xs arbitrary: cur)
  case Nil
  show ?case by (simp add: py_split_Nil)
next
  case (Cons c cs)
  show ?case
  proof (cases "py_isspace c")
    case True
    then show ?thesis by (simp add: Cons.IH[of "[]"] py_split_space)
  next
    case False
    then show ?thesis by (simp add: Cons.IH[of "cur @ [c]"] py_split_word)
  qed
qed

lemma py_split_bursts: "py_split s = whitespace_bursts s"
  by (simp add: whitespace_bursts_def bursts_from_py_split)

lemma strip_leading_dropWhile:
  "strip_leading_movenumber_indication b = dropWhile (\<lambda>c. \<not> is_alpha_or_paren c) b"
  by (simp add: strip_leading_movenumber_indication_def dropWhile_eq_drop)

text \<open>
  Claim C4.  For every string, \<^verbatim>\<open>tokenize_pgnstring\<close> returns, in source order, the
  bursts between maximal runs of whitespace, each without its longest leading run of
  characters that are neither an ASCII letter nor a parenthesis, and without the bursts
  that this leaves empty; so no token is empty.  \<^verbatim>\<open>1.e4 e5 2.Nf3 Nc6\<close> gives the
  tokens \<^verbatim>\<open>e4\<close>, \<^verbatim>\<open>e5\<close>, \<^verbatim>\<open>Nf3\<close>, \<^verbatim>\<open>Nc6\<close>, and in \<^verbatim>\<open>1. e4 e5\<close> the
  burst \<^verbatim>\<open>1.\<close> strips to the empty string and is dropped.
\<close>

theorem tokenize_pgnstring_bursts:
  "tokenize_pgnstring s =
     filter (\<lambda>t. t \<noteq> [])
       (map (dropWhile (\<lambda>c. \<not> is_alpha_or_paren c)) (whitespace_bursts s))
   \<and> [] \<notin> set (tokenize_pgnstring s)
   \<and> tokenize_pgnstring ''1.e4 e5 2.Nf3 Nc6'' = [''e4'', ''e5'', ''Nf3'', ''Nc6'']
   \<and> whitespace_bursts ''1. e4 e5'' = [''1.'', ''e4'', ''e5'']
   \<and> dropWhile (\<lambda>c. \<not> is_alpha_or_paren c) ''1.'' = []
   \<and> tokenize_pgnstring ''1. e4 e5'' = [''e4'', ''e5'']"
proof -
  have eq: "tokenize_pgnstring s =
     filter (\<lambda>t. t \<noteq> [])
       (map (dropWhile (\<lambda>c. \<not> is_alpha_or_paren c)) (whitespace_bursts s))"
    unfolding tokenize_pgnstring_def Let_def py_split_bursts
    by (rule arg_cong[where f = "filter (\<lambda>t. t \<noteq> [])"], rule map_cong[OF refl])
       (rule strip_leading_dropWhile)
  have ne: "[] \<notin> set (tokenize_pgnstring s)"
    by (simp add: tokenize_pgnstring_def)
  have e1: "tokenize_pgnstring ''1.e4 e5 2.Nf3 Nc6'' = [''e4'', ''e5'', ''Nf3'', ''Nc6'']"
    by code_simp
  have e2: "whitespace_bursts ''1. e4 e5'' = [''1.'', ''e4'', ''e5'']"
    by code_simp
  have e3: "dropWhile (\<lambda>c. \<not> is_alpha_or_paren c) ''1.'' = []"
    by code_simp
  have e4: "tokenize_pgnstring ''1. e4 e5'' = [''e4'', ''e5'']"
    by code_simp
  show ?thesis
    by (rule conjI[OF eq conjI[OF ne conjI[OF e1 conjI[OF e2 conjI[OF e3 e4]]]]])
qed

section \<open>Properties of the movetext extraction\<close>

lemma py_slice_open: "0 \<le> a \<Longrightarrow> py_slice s a None = drop (nat a) s"
  by (simp add: py_slice_def slice_index_def Let_def min_def)

lemma py_slice_nonneg:
  assumes "0 \<le> a" "0 \<le> e"
  shows "py_slice s a (Some e) = take (nat e - nat a) (drop (nat a) s)"
proof (cases "nat a \<le> length s")
  case True
  show ?thesis
  proof (cases "nat e \<le> length s")
    case e: True
    with True assms show ?thesis
      by (simp add: py_slice_def slice_index_def Let_def min_def)
  next
    case e: False
    with True assms show ?thesis
      by (simp add: py_slice_def slice_index_def Let_def min_def)
  qed
next
  case False
  with assms show ?thesis
    by (simp add: py_slice_def slice_index_def Let_def min_def)
qed

text \<open>
  Claim C8.  When the boundary locator returns a first boundary and no second one,
  \<^verbatim>\<open>extract_game_1_movetext\<close> returns the text from the first boundary to the end, without
  its leading whitespace; when it returns both boundaries, the result is the text between
  them, again without its leading whitespace.  A boundary is an index into the text, so it
  is not negative.
\<close>

theorem extract_game_1_movetext_slices:
  assumes "0 \<le> start"
  shows "(locator s = (Some start, None) \<longrightarrow>
            extract_game_1_movetext locator s
              = Inr (dropWhile py_isspace (drop (nat start) s)))
       \<and> (\<forall>e. 0 \<le> e \<and> locator s = (Some start, Some e) \<longrightarrow>
            extract_game_1_movetext locator s
              = Inr (dropWhile py_isspace (take (nat e - nat start) (drop (nat start) s))))"
proof (intro conjI allI impI)
  assume "locator s = (Some start, None)"
  then show "extract_game_1_movetext locator s
              = Inr (dropWhile py_isspace (drop (nat start) s))"
    by (simp add: extract_game_1_movetext_def py_slice_open[OF assms])
next
  fix e assume "0 \<le> e \<and> locator s = (Some start, Some e)"
  then show "extract_game_1_movetext locator s
              = Inr (dropWhile py_isspace (take (nat e - nat start) (drop (nat start) s)))"
    by (simp add: extract_game_1_movetext_def py_slice_nonneg[OF assms])
qed

theorem extract_game_1_movetext_slices_witness:
  "(0::int) \<le> 3
   \<and> extract_game_1_movetext (\<lambda>t. (Some 3, None)) ''abc  1.e4 e5'' = Inr ''1.e4 e5''
   \<and> (0::int) \<le> 8
   \<and> extract_game_1_movetext (\<lambda>t. (Some 3, Some 8)) ''abc  1.e4 e5'' = Inr ''1.e''"
proof -
  have le: "(0::int) \<le> 3" and le8: "(0::int) \<le> 8" by simp_all
  have d1: "dropWhile py_isspace (drop (nat 3) ''abc  1.e4 e5'') = ''1.e4 e5''"
    by code_simp
  have d2: "dropWhile py_isspace (take (nat 8 - nat 3) (drop (nat 3) ''abc  1.e4 e5'')) = ''1.e''"
    by code_simp
  note t1 = extract_game_1_movetext_slices[OF le,
      where locator = "\<lambda>t. (Some 3, None)" and s = "''abc  1.e4 e5''", THEN conjunct1]
  note t2 = extract_game_1_movetext_slices[OF le,
      where locator = "\<lambda>t. (Some 3, Some 8)" and s = "''abc  1.e4 e5''", THEN conjunct2]
  have a: "extract_game_1_movetext (\<lambda>t. (Some 3, None)) ''abc  1.e4 e5'' = Inr ''1.e4 e5''"
    by (rule mp[OF t1 refl, unfolded d1])
  have b: "extract_game_1_movetext (\<lambda>t. (Some 3, Some 8)) ''abc  1.e4 e5'' = Inr ''1.e''"
    by (rule mp[OF spec[OF t2, of 8] conjI[OF le8 refl], unfolded d2])
  show ?thesis by (rule conjI[OF le conjI[OF a conjI[OF le8 b]]])
qed

section \<open>The stripper against a one-pass reading of the string\<close>

text \<open>
  The two loops of \<^verbatim>\<open>strip_balanced_braces_from_string\<close> jump from brace to brace.  They
  are related here to \<open>depth_strip\<close>, which reads the string one character at a time: first
  the inner loop to \<open>closing\<close>, then the main loop to \<open>depth_strip\<close>.
\<close>

lemma scan_at_left:
  assumes "drop b s = CHR ''{'' # cs"
  shows "scan_for_next_brace s (int b) left_brace right_brace = (int b, False, True)"
  unfolding scan_nat assms by (simp add: is_brace_def)

lemma scan_at_right:
  assumes "drop b s = CHR ''}'' # cs"
  shows "scan_for_next_brace s (int b) left_brace right_brace = (int b, True, False)"
  unfolding scan_nat assms by (simp add: is_brace_def)

lemma scan_at_other:
  assumes "drop b s = c # cs" "\<not> is_brace c"
  shows "scan_for_next_brace s (int b) left_brace right_brace
           = scan_for_next_brace s (int (Suc b)) left_brace right_brace"
proof -
  from assms(1) have cs: "drop (Suc b) s = cs"
    by (metis drop_Suc tl_drop list.sel(3))
  have t: "b + length (takeWhile (\<lambda>c. \<not> is_brace c) (c # cs))
             = Suc b + length (takeWhile (\<lambda>c. \<not> is_brace c) cs)"
    and d: "dropWhile (\<lambda>c. \<not> is_brace c) (c # cs) = dropWhile (\<lambda>c. \<not> is_brace c) cs"
    using assms(2) by simp_all
  show ?thesis unfolding scan_nat assms(1) cs t d ..
qed

lemma scan_at_end:
  assumes "drop b s = []"
  shows "scan_for_next_brace s (int b) left_brace right_brace = (- 1, False, False)"
  unfolding scan_nat assms by simp

lemma drop_Cons_Suc: "drop b s = c # cs \<Longrightarrow> drop (Suc b) s = cs"
  by (metis drop_Suc tl_drop list.sel(3))

lemma skip_loop_closing:
  "1 \<le> d \<Longrightarrow>
     skip_loop s i0 (int d) (int b) =
       (case closing d (drop b s) of
          None \<Rightarrow> Inl (UnmatchedOpeningDelimiter (i0 - 1))
        | Some k \<Rightarrow> Inr (int (b + k)))"
proof (induction "drop b s" arbitrary: b d)
  case Nil
  from Nil(1)[symmetric] show ?case
    by (simp add: skip_loop.simps[of s i0 "int d" "int b"] scan_at_end fatal_pgn_error_def)
next
  case (Cons c cs)
  note dr = Cons.hyps(2)[symmetric]
  note dr' = drop_Cons_Suc[OF dr]
  consider (left) "c = CHR ''{''" | (right) "c = CHR ''}''" | (other) "\<not> is_brace c"
    by (auto simp: is_brace_def)
  then show ?case
  proof cases
    case left
    have step: "skip_loop s i0 (int d) (int b) = skip_loop s i0 (int (Suc d)) (int (Suc b))"
      using Cons.prems
      by (simp add: skip_loop.simps[of s i0 "int d" "int b"] scan_at_left[OF dr[unfolded left]]
                    add.commute)
    have ih: "skip_loop s i0 (int (Suc d)) (int (Suc b)) =
       (case closing (Suc d) (drop (Suc b) s) of
          None \<Rightarrow> Inl (UnmatchedOpeningDelimiter (i0 - 1))
        | Some k \<Rightarrow> Inr (int (Suc b + k)))"
      by (rule Cons.hyps(1)[OF dr'[symmetric]]) simp
    show ?thesis
      unfolding step ih dr dr' using left
      by (simp split: option.split)
  next
    case right
    show ?thesis
    proof (cases "d \<le> 1")
      case True
      with Cons.prems have d1: "d = 1" by simp
      have step: "skip_loop s i0 (int d) (int b) = Inr (int b)"
        unfolding skip_loop.simps[of s i0 "int d" "int b"] scan_at_right[OF dr[unfolded right]]
        using d1 by simp
      show ?thesis
        unfolding step dr using right d1 by simp
    next
      case False
      then have step: "skip_loop s i0 (int d) (int b) = skip_loop s i0 (int (d - 1)) (int (Suc b))"
        by (simp add: skip_loop.simps[of s i0 "int d" "int b"] scan_at_right[OF dr[unfolded right]]
                      add.commute of_nat_diff)
      have ih: "skip_loop s i0 (int (d - 1)) (int (Suc b)) =
         (case closing (d - 1) (drop (Suc b) s) of
            None \<Rightarrow> Inl (UnmatchedOpeningDelimiter (i0 - 1))
          | Some k \<Rightarrow> Inr (int (Suc b + k)))"
        by (rule Cons.hyps(1)[OF dr'[symmetric]]) (use False in simp)
      show ?thesis
        unfolding step ih dr dr' using right False
        by (simp split: option.split)
    qed
  next
    case other
    then have ne: "c \<noteq> CHR ''{''" "c \<noteq> CHR ''}''" by (auto simp: is_brace_def)
    have step: "skip_loop s i0 (int d) (int b) = skip_loop s i0 (int d) (int (Suc b))"
      unfolding skip_loop.simps[of s i0 "int d" "int b"]
                skip_loop.simps[of s i0 "int d" "int (Suc b)"]
                scan_at_other[OF dr other] ..
    have ih: "skip_loop s i0 (int d) (int (Suc b)) =
       (case closing d (drop (Suc b) s) of
          None \<Rightarrow> Inl (UnmatchedOpeningDelimiter (i0 - 1))
        | Some k \<Rightarrow> Inr (int (Suc b + k)))"
      by (rule Cons.hyps(1)[OF dr'[symmetric] Cons.prems])
    show ?thesis
      unfolding step ih dr dr' using ne
      by (simp split: option.split)
  qed
qed

lemma depth_strip_closing:
  "1 \<le> d \<Longrightarrow>
     depth_strip p d opened xs =
       (case closing d xs of
          None \<Rightarrow> Inl (UnmatchedOpeningDelimiter (int opened))
        | Some k \<Rightarrow> depth_strip (p + k + 1) 0 opened (drop (Suc k) xs))"
proof (induction xs arbitrary: p d)
  case Nil
  then show ?case by simp
next
  case (Cons c cs)
  consider (left) "c = CHR ''{''" | (right) "c = CHR ''}''" | (other) "\<not> is_brace c"
    by (auto simp: is_brace_def)
  then show ?case
  proof cases
    case left
    have "1 \<le> Suc d" by simp
    from Cons.IH[OF this, of "Suc p"] left Cons.prems show ?thesis
      by (simp split: option.split)
  next
    case right
    show ?thesis
    proof (cases "d \<le> 1")
      case True
      with Cons.prems have "d = 1" by simp
      with right show ?thesis by simp
    next
      case False
      then have "1 \<le> d - 1" by simp
      from Cons.IH[OF this, of "Suc p"] right False show ?thesis
        by (simp split: option.split)
    qed
  next
    case other
    then have "c \<noteq> CHR ''{''" "c \<noteq> CHR ''}''" by (auto simp: is_brace_def)
    with Cons.IH[OF Cons.prems, of "Suc p"] Cons.prems show ?thesis
      by (simp split: option.split)
  qed
qed

lemma depth_strip_opening:
  "depth_strip p 0 opened xs = depth_strip p 0 opened' xs"
  by (induction xs arbitrary: p) simp_all

lemma depth_strip_plain_prefix:
  "\<forall>c\<in>set pre. \<not> is_brace c \<Longrightarrow>
     depth_strip p 0 opened (pre @ ys) =
       map_sum id ((@) pre) (depth_strip (p + length pre) 0 opened ys)"
proof (induction pre arbitrary: p)
  case Nil
  show ?case by (cases "depth_strip p 0 opened ys") simp_all
next
  case (Cons c pre)
  then have ne: "c \<noteq> CHR ''{''" "c \<noteq> CHR ''}''" and rest: "\<forall>c\<in>set pre. \<not> is_brace c"
    by (auto simp: is_brace_def)
  from Cons.IH[OF rest, of "Suc p"] ne show ?case
    by (cases "depth_strip (Suc (p + length pre)) 0 opened ys") simp_all
qed

lemma py_slice_segment:
  "py_slice s (int b) (Some (int (b + k))) = take k (drop b s)"
  using py_slice_nonneg[of "int b" "int (b + k)" s] by (simp del: of_nat_add)

lemma py_slice_rest:
  "py_slice s (int b) (Some (int (length s))) = drop b s"
  using py_slice_nonneg[of "int b" "int (length s)" s] by simp

lemma skip_over_closing:
  "skip_over_remainder_of_balanced_expression s (int (Suc b)) =
     (case closing 1 (drop (Suc b) s) of
        None \<Rightarrow> Inl (UnmatchedOpeningDelimiter (int b))
      | Some m \<Rightarrow> Inr (int (Suc b + m)))"
proof -
  have "skip_loop s (int (Suc b)) (int 1) (int (Suc b)) =
     (case closing 1 (drop (Suc b) s) of
        None \<Rightarrow> Inl (UnmatchedOpeningDelimiter (int (Suc b) - 1))
      | Some m \<Rightarrow> Inr (int (Suc b + m)))"
    by (rule skip_loop_closing) simp
  then show ?thesis
    unfolding skip_over_remainder_of_balanced_expression_def
    by (cases "closing 1 (drop (Suc b) s)") simp_all
qed

lemma strip_loop_depth_strip:
  "map_sum id concat (strip_loop s (int b) acc)
     = map_sum id ((@) (concat acc)) (depth_strip b 0 opened (drop b s))"
proof (induction "length s - b" arbitrary: b acc opened rule: less_induct)
  case less
  show ?case
  proof (cases "b < length s")
    case False
    then have "drop b s = []" by simp
    moreover from False have "strip_loop s (int b) acc = Inr acc"
      by (subst strip_loop.simps) simp
    ultimately show ?thesis by simp
  next
    case True
    define xs where "xs = drop b s"
    define pre where "pre = takeWhile (\<lambda>c. \<not> is_brace c) xs"
    define rest where "rest = dropWhile (\<lambda>c. \<not> is_brace c) xs"
    define k where "k = length pre"
    have xs: "xs = pre @ rest" by (simp add: pre_def rest_def)
    have plain: "\<forall>c\<in>set pre. \<not> is_brace c"
      unfolding pre_def by (auto dest: set_takeWhileD)
    have ds: "depth_strip b 0 opened (drop b s)
                = map_sum id ((@) pre) (depth_strip (b + k) 0 opened rest)"
      unfolding xs_def[symmetric] xs k_def by (rule depth_strip_plain_prefix[OF plain])
    have sc: "scan_for_next_brace s (int b) left_brace right_brace =
                (case rest of [] \<Rightarrow> (- 1, False, False)
                 | c # _ \<Rightarrow> (int (b + k), c = CHR ''}'', c = CHR ''{''))"
      unfolding scan_nat rest_def k_def pre_def xs_def ..
    have lt: "int b < int (length s)" using True by simp
    show ?thesis
    proof (cases rest)
      case Nil
      have sc': "scan_for_next_brace s (int b) left_brace right_brace = (- 1, False, False)"
        unfolding sc Nil by simp
      have "strip_loop s (int b) acc = Inr (acc @ [drop b s])"
        using lt
        by (subst strip_loop.simps) (simp add: sc' save_current_substring_def py_slice_rest)
      moreover have "drop b s = pre" using xs Nil by (simp add: xs_def)
      ultimately show ?thesis unfolding ds Nil by simp
    next
      case (Cons c cs)
      from dropWhile_Cons_props[OF Cons[unfolded rest_def]] have br: "is_brace c" by simp
      have sc': "scan_for_next_brace s (int b) left_brace right_brace
                   = (int (b + k), c = CHR ''}'', c = CHR ''{'')"
        unfolding sc Cons by simp
      have ne: "int (b + k) \<noteq> - 1" by linarith
      show ?thesis
      proof (cases "c = CHR ''}''")
        case True
        have "strip_loop s (int b) acc = Inl (UnexpectedClosingDelimiter (int (b + k)))"
          using lt True
          by (subst strip_loop.simps) (simp add: sc' fatal_pgn_error_def del: of_nat_add)
        then show ?thesis unfolding ds Cons using True by (simp del: of_nat_add)
      next
        case False
        with br have left: "c = CHR ''{''" by (simp add: is_brace_def)
        have "drop k xs = rest" using xs by (simp add: k_def)
        then have dr: "drop (Suc (b + k)) s = cs"
          using Cons by (metis xs_def drop_drop add.commute drop_Cons_Suc)
        have pre: "py_slice s (int b) (Some (int (b + k))) = pre"
          unfolding py_slice_segment xs_def[symmetric] xs k_def by simp
        have suc: "int (b + k) + 1 = int (Suc (b + k))" by simp
        have sv: "save_current_substring s (int b) (int (b + k)) acc = acc @ [pre]"
          by (simp add: save_current_substring_def pre del: of_nat_add)
        have step: "strip_loop s (int b) acc =
              (case skip_over_remainder_of_balanced_expression s (int (Suc (b + k))) of
                 Inl e \<Rightarrow> Inl e
               | Inr index_end \<Rightarrow> strip_loop s (index_end + 1) (acc @ [pre]))"
          using lt left ne
          by (subst strip_loop.simps)
             (simp add: sc' suc sv del: of_nat_add cong: sum.case_cong)
        show ?thesis
        proof (cases "closing 1 cs")
          case None
          have "strip_loop s (int b) acc = Inl (UnmatchedOpeningDelimiter (int (b + k)))"
            unfolding step skip_over_closing dr None by simp
          moreover have "depth_strip (b + k) 0 opened rest
                           = Inl (UnmatchedOpeningDelimiter (int (b + k)))"
            unfolding Cons left using depth_strip_closing[of 1 "Suc (b + k)" "b + k" cs] None
            by simp
          ultimately show ?thesis unfolding ds by simp
        next
          case (Some m)
          define b' where "b' = Suc (b + k) + m + 1"
          have jump: "int (Suc (b + k) + m) + 1 = int b'" by (simp add: b'_def)
          have lhs: "strip_loop s (int b) acc = strip_loop s (int b') (acc @ [pre])"
            unfolding step skip_over_closing dr Some using jump by (simp del: of_nat_add)
          have dr': "drop (Suc m) cs = drop b' s"
            unfolding dr[symmetric] b'_def by (simp add: add.commute)
          have rhs: "depth_strip (b + k) 0 opened rest = depth_strip b' 0 (b + k) (drop b' s)"
            unfolding Cons left b'_def dr'[unfolded b'_def, symmetric]
            using depth_strip_closing[of 1 "Suc (b + k)" "b + k" cs] Some
            by simp
          have "length s - b' < length s - b" using True by (simp add: b'_def)
          from less[OF this, of "acc @ [pre]" "b + k"]
          have "map_sum id concat (strip_loop s (int b') (acc @ [pre]))
                  = map_sum id ((@) (concat acc @ pre)) (depth_strip b' 0 (b + k) (drop b' s))"
            by simp
          then show ?thesis
            unfolding lhs ds rhs
            by (cases "depth_strip b' 0 (b + k) (drop b' s)") simp_all
        qed
      qed
    qed
  qed
qed

lemma strip_is_depth_strip:
  "strip_balanced_braces_from_string s = depth_strip 0 0 0 s"
proof -
  have "map_sum id concat (strip_loop s 0 []) = depth_strip 0 0 0 s"
    using strip_loop_depth_strip[of s 0 "[]" 0]
    by (cases "depth_strip 0 0 0 s") simp_all
  then show ?thesis
    by (cases "strip_loop s 0 []") (simp_all add: strip_balanced_braces_from_string_def)
qed

lemma balanced_depth_strip:
  "balanced d xs \<Longrightarrow> depth_strip p d opened xs = Inr (outside_annotations d xs)"
proof (induction xs arbitrary: p d opened)
  case Nil
  then show ?case by simp
next
  case (Cons c cs)
  consider (left) "c = CHR ''{''" | (right) "c = CHR ''}''" | (other) "\<not> is_brace c"
    by (auto simp: is_brace_def)
  then show ?case
  proof cases
    case left
    with Cons.prems have "balanced (Suc d) cs" by simp
    from Cons.IH[OF this] left show ?thesis by simp
  next
    case right
    with Cons.prems have "0 < d" "balanced (d - 1) cs" by simp_all
    from Cons.IH[OF this(2)] this(1) right show ?thesis by simp
  next
    case other
    then have ne: "c \<noteq> CHR ''{''" "c \<noteq> CHR ''}''" by (auto simp: is_brace_def)
    with Cons.prems have "balanced d cs" by simp
    from Cons.IH[OF this, of "Suc p" opened] ne show ?thesis by (cases "d = 0") simp_all
  qed
qed

lemma balanced_prefix_depth_strip:
  "balanced d pre \<Longrightarrow>
     depth_strip p d opened (pre @ ys) =
       map_sum id ((@) (outside_annotations d pre)) (depth_strip (p + length pre) 0 opened' ys)"
proof (induction pre arbitrary: p d opened)
  case Nil
  then have "d = 0" by simp
  then show ?case
    using depth_strip_opening[of p opened ys opened']
    by (cases "depth_strip p 0 opened' ys") simp_all
next
  case (Cons c cs)
  consider (left) "c = CHR ''{''" | (right) "c = CHR ''}''" | (other) "\<not> is_brace c"
    by (auto simp: is_brace_def)
  then show ?case
  proof cases
    case left
    with Cons.prems have "balanced (Suc d) cs" by simp
    from Cons.IH[OF this] left show ?thesis by simp
  next
    case right
    with Cons.prems have "0 < d" "balanced (d - 1) cs" by simp_all
    from Cons.IH[OF this(2)] this(1) right show ?thesis by simp
  next
    case other
    then have ne: "c \<noteq> CHR ''{''" "c \<noteq> CHR ''}''" by (auto simp: is_brace_def)
    with Cons.prems have bal: "balanced d cs" by simp
    show ?thesis
    proof (cases "d = 0")
      case True
      from Cons.IH[OF bal, of "Suc p" opened] ne True show ?thesis
        by (cases "depth_strip (Suc (p + length cs)) 0 opened' ys") simp_all
    next
      case False
      from Cons.IH[OF bal, of "Suc p" opened] ne False show ?thesis by simp
    qed
  qed
qed

lemma never_closed_depth_strip:
  "0 < d \<Longrightarrow> never_closed d xs \<Longrightarrow>
     depth_strip p d opened xs = Inl (UnmatchedOpeningDelimiter (int opened))"
proof (induction xs arbitrary: p d)
  case Nil
  then show ?case by simp
next
  case (Cons c cs)
  consider (left) "c = CHR ''{''" | (right) "c = CHR ''}''" | (other) "\<not> is_brace c"
    by (auto simp: is_brace_def)
  then show ?case
  proof cases
    case left
    with Cons.prems have "never_closed (Suc d) cs" by simp
    from Cons.IH[OF _ this, of "Suc p"] left Cons.prems(1) show ?thesis by simp
  next
    case right
    with Cons.prems have "1 < d" "never_closed (d - 1) cs" by simp_all
    from Cons.IH[OF _ this(2), of "Suc p"] this(1) right show ?thesis by simp
  next
    case other
    then have ne: "c \<noteq> CHR ''{''" "c \<noteq> CHR ''}''" by (auto simp: is_brace_def)
    with Cons.prems have "never_closed d cs" by simp
    from Cons.IH[OF Cons.prems(1) this, of "Suc p"] ne Cons.prems(1) show ?thesis by simp
  qed
qed

lemma depth_strip_no_braces:
  "depth_strip p d opened xs = Inr t \<Longrightarrow> \<forall>c\<in>set t. \<not> is_brace c"
proof (induction xs arbitrary: p d opened t)
  case Nil
  then show ?case by (simp split: if_splits)
next
  case (Cons c cs)
  consider (left) "c = CHR ''{''" | (right) "c = CHR ''}''" | (other) "\<not> is_brace c"
    by (auto simp: is_brace_def)
  then show ?case
  proof cases
    case left
    with Cons.prems have "depth_strip (Suc p) (Suc d) (if d = 0 then p else opened) cs = Inr t"
      by simp
    from Cons.IH[OF this] show ?thesis .
  next
    case right
    with Cons.prems have "depth_strip (Suc p) (d - 1) opened cs = Inr t"
      by (simp split: if_splits)
    from Cons.IH[OF this] show ?thesis .
  next
    case other
    then have ne: "c \<noteq> CHR ''{''" "c \<noteq> CHR ''}''" by (auto simp: is_brace_def)
    show ?thesis
    proof (cases "d = 0")
      case True
      with Cons.prems ne obtain t' where t': "depth_strip (Suc p) 0 opened cs = Inr t'" "t = c # t'"
        by (cases "depth_strip (Suc p) 0 opened cs") auto
      from Cons.IH[OF t'(1)] t'(2) other show ?thesis by simp
    next
      case False
      with Cons.prems ne have "depth_strip (Suc p) d opened cs = Inr t" by simp
      from Cons.IH[OF this] show ?thesis .
    qed
  qed
qed

lemma plain_depth_strip:
  "\<forall>c\<in>set t. \<not> is_brace c \<Longrightarrow> depth_strip p 0 opened t = Inr t"
  using depth_strip_plain_prefix[of t p opened "[]"] by simp

lemma non_nested_balanced:
  "non_nested inside xs \<Longrightarrow>
     balanced (if inside then 1 else 0) xs
     \<and> outside_annotations (if inside then 1 else 0) xs = delete_spans inside xs"
proof (induction xs arbitrary: inside)
  case Nil
  then show ?case by simp
next
  case (Cons c cs)
  consider (left) "c = CHR ''{''" | (right) "c = CHR ''}''" | (other) "\<not> is_brace c"
    by (auto simp: is_brace_def)
  then show ?case
  proof cases
    case left
    with Cons.prems have "\<not> inside" "non_nested True cs" by simp_all
    from Cons.IH[OF this(2)] this(1) left show ?thesis by simp
  next
    case right
    with Cons.prems have "inside" "non_nested False cs" by simp_all
    from Cons.IH[OF this(2)] this(1) right show ?thesis by simp
  next
    case other
    then have ne: "c \<noteq> CHR ''{''" "c \<noteq> CHR ''}''" by (auto simp: is_brace_def)
    with Cons.prems have "non_nested inside cs" by simp
    from Cons.IH[OF this] ne show ?thesis by (cases inside) simp_all
  qed
qed

section \<open>Properties of the stripper\<close>

text \<open>
  Claim C1.  On a string whose annotations are balanced,
  \<^verbatim>\<open>strip_balanced_braces_from_string\<close> returns the characters outside every top-level
  annotation span, in source order, each span being left out from its opening brace to the
  matching closing brace; when no annotation is nested this is the input with every
  \<^verbatim>\<open>{...}\<close> span deleted; and \<^verbatim>\<open>before{a{b{c}d}e}after\<close> gives \<^verbatim>\<open>beforeafter\<close>.
\<close>

theorem strip_balanced_braces_outside:
  "(balanced 0 s \<longrightarrow>
      strip_balanced_braces_from_string s = Inr (outside_annotations 0 s))
   \<and> (non_nested False s \<longrightarrow>
      strip_balanced_braces_from_string s = Inr (delete_spans False s))
   \<and> strip_balanced_braces_from_string ''before{a{b{c}d}e}after'' = Inr ''beforeafter''"
proof -
  have a: "balanced 0 s \<longrightarrow>
      strip_balanced_braces_from_string s = Inr (outside_annotations 0 s)"
    unfolding strip_is_depth_strip by (rule impI) (rule balanced_depth_strip)
  have b: "non_nested False s \<longrightarrow>
      strip_balanced_braces_from_string s = Inr (delete_spans False s)"
  proof
    assume "non_nested False s"
    from non_nested_balanced[OF this]
    have "balanced 0 s" "outside_annotations 0 s = delete_spans False s" by simp_all
    with balanced_depth_strip[of 0 s 0 0] show
      "strip_balanced_braces_from_string s = Inr (delete_spans False s)"
      unfolding strip_is_depth_strip by simp
  qed
  have c: "strip_balanced_braces_from_string ''before{a{b{c}d}e}after'' = Inr ''beforeafter''"
    by code_simp
  show ?thesis by (rule conjI[OF a conjI[OF b c]])
qed

theorem strip_balanced_braces_outside_witness:
  "balanced 0 ''a{x}{y}b'' \<and> non_nested False ''a{x}{y}b''
   \<and> strip_balanced_braces_from_string ''a{x}{y}b'' = Inr ''ab''"
proof -
  have bal: "balanced 0 ''a{x}{y}b''" by code_simp
  have flat: "non_nested False ''a{x}{y}b''" by code_simp
  have out: "outside_annotations 0 ''a{x}{y}b'' = ''ab''" by code_simp
  have res: "strip_balanced_braces_from_string ''a{x}{y}b'' = Inr ''ab''"
    by (rule mp[OF conjunct1[OF strip_balanced_braces_outside[where s = "''a{x}{y}b''"]] bal,
                unfolded out])
  show ?thesis by (rule conjI[OF bal conjI[OF flat res]])
qed

text \<open>
  Claim C2.  When the brace at index \<open>i\<close> opens an annotation at top level (the text before
  it is balanced) and the rest of the string never closes it, so that the end of the string
  is reached with the depth still positive, \<^verbatim>\<open>strip_balanced_braces_from_string\<close> ends
  with the fault for an unmatched opening delimiter at index \<open>i\<close> and returns no value; on
  \<^verbatim>\<open>text{unclosed\<close> the index is 4.
\<close>

theorem strip_unmatched_opening:
  "(balanced 0 pre \<and> never_closed 1 rest \<longrightarrow>
      strip_balanced_braces_from_string (pre @ CHR ''{'' # rest)
        = Inl (UnmatchedOpeningDelimiter (int (length pre))))
   \<and> strip_balanced_braces_from_string ''text{unclosed'' = Inl (UnmatchedOpeningDelimiter 4)"
proof -
  have a: "strip_balanced_braces_from_string (pre @ CHR ''{'' # rest)
             = Inl (UnmatchedOpeningDelimiter (int (length pre)))"
    if bal: "balanced 0 pre" and nc: "never_closed 1 rest"
  proof -
    have "depth_strip (length pre) 0 0 (CHR ''{'' # rest)
            = Inl (UnmatchedOpeningDelimiter (int (length pre)))"
      using never_closed_depth_strip[OF _ nc, of "Suc (length pre)" "length pre"] by simp
    with balanced_prefix_depth_strip[OF bal, of 0 0 "CHR ''{'' # rest" 0] show ?thesis
      unfolding strip_is_depth_strip by simp
  qed
  have b: "strip_balanced_braces_from_string ''text{unclosed'' = Inl (UnmatchedOpeningDelimiter 4)"
    by code_simp
  from a b show ?thesis by blast
qed

theorem strip_unmatched_opening_witness:
  "balanced 0 ''a{b}c'' \<and> never_closed 1 ''d{e}f''
   \<and> strip_balanced_braces_from_string (''a{b}c'' @ CHR ''{'' # ''d{e}f'')
        = Inl (UnmatchedOpeningDelimiter (int (length ''a{b}c'')))"
proof -
  have bal: "balanced 0 ''a{b}c''" by code_simp
  have nc: "never_closed 1 ''d{e}f''" by code_simp
  note t = mp[OF conjunct1[OF strip_unmatched_opening[where pre = "''a{b}c''" and rest = "''d{e}f''"]]
               conjI[OF bal nc]]
  show ?thesis by (rule conjI[OF bal conjI[OF nc t]])
qed

text \<open>
  Claim C3.  When the next brace found at top level (the text before it is balanced) is a
  closing brace at index \<open>j\<close>, \<^verbatim>\<open>strip_balanced_braces_from_string\<close> ends with the fault
  for an unexpected closing delimiter at index \<open>j\<close> and returns no value; on \<^verbatim>\<open>text}\<close>
  the index is 4.
\<close>

theorem strip_unexpected_closing:
  "(balanced 0 pre \<longrightarrow>
      strip_balanced_braces_from_string (pre @ CHR ''}'' # rest)
        = Inl (UnexpectedClosingDelimiter (int (length pre))))
   \<and> strip_balanced_braces_from_string ''text}'' = Inl (UnexpectedClosingDelimiter 4)"
proof -
  have a: "strip_balanced_braces_from_string (pre @ CHR ''}'' # rest)
             = Inl (UnexpectedClosingDelimiter (int (length pre)))"
    if bal: "balanced 0 pre"
    using balanced_prefix_depth_strip[OF bal, of 0 0 "CHR ''}'' # rest" 0]
    unfolding strip_is_depth_strip by simp
  have b: "strip_balanced_braces_from_string ''text}'' = Inl (UnexpectedClosingDelimiter 4)"
    by code_simp
  from a b show ?thesis by blast
qed

theorem strip_unexpected_closing_witness:
  "balanced 0 ''a{b}c''
   \<and> strip_balanced_braces_from_string (''a{b}c'' @ CHR ''}'' # ''d{e'')
        = Inl (UnexpectedClosingDelimiter (int (length ''a{b}c'')))"
proof -
  have bal: "balanced 0 ''a{b}c''" by code_simp
  note t = mp[OF conjunct1[OF strip_unexpected_closing[where pre = "''a{b}c''" and rest = "''d{e''"]]
               bal]
  show ?thesis by (rule conjI[OF bal t])
qed

text \<open>
  Claim C6.  Whenever \<^verbatim>\<open>strip_balanced_braces_from_string\<close> returns a string, that string
  holds no brace of either kind.
\<close>

theorem strip_output_has_no_brace:
  "strip_balanced_braces_from_string s = Inr t \<Longrightarrow>
     CHR ''{'' \<notin> set t \<and> CHR ''}'' \<notin> set t"
proof -
  assume "strip_balanced_braces_from_string s = Inr t"
  then have "depth_strip 0 0 0 s = Inr t" by (simp only: strip_is_depth_strip)
  from depth_strip_no_braces[OF this] show ?thesis
    by (auto simp: is_brace_def)
qed

theorem strip_output_has_no_brace_witness:
  "strip_balanced_braces_from_string ''a{x{y}}b{}'' = Inr ''ab''
   \<and> CHR ''{'' \<notin> set ''ab'' \<and> CHR ''}'' \<notin> set ''ab''"
proof -
  have e: "strip_balanced_braces_from_string ''a{x{y}}b{}'' = Inr ''ab''" by code_simp
  show ?thesis by (rule conjI[OF e strip_output_has_no_brace[OF e]])
qed

text \<open>
  Claim C7.  Where \<^verbatim>\<open>strip_balanced_braces_from_string\<close> returns a string, applying it to
  that string returns the string unchanged.
\<close>

theorem strip_idempotent:
  "strip_balanced_braces_from_string s = Inr t \<Longrightarrow>
     strip_balanced_braces_from_string t = Inr t"
proof -
  assume "strip_balanced_braces_from_string s = Inr t"
  then have "depth_strip 0 0 0 s = Inr t" by (simp only: strip_is_depth_strip)
  from plain_depth_strip[OF depth_strip_no_braces[OF this]] show ?thesis
    by (simp only: strip_is_depth_strip)
qed

theorem strip_idempotent_witness:
  "strip_balanced_braces_from_string ''1.e4 {best} e5'' = Inr ''1.e4  e5''
   \<and> strip_balanced_braces_from_string ''1.e4  e5'' = Inr ''1.e4  e5''"
proof -
  have e: "strip_balanced_braces_from_string ''1.e4 {best} e5'' = Inr ''1.e4  e5''" by code_simp
  show ?thesis by (rule conjI[OF e strip_idempotent[OF e]])
qed

section \<open>Properties of the whole pipeline\<close>

lemma bursts_from_subset:
  "b \<in> set (bursts_from cur xs) \<Longrightarrow> set b \<subseteq> set cur \<union> set xs"
proof (induction xs arbitrary: cur)
  case Nil
  then show ?case by (simp split: if_splits)
next
  case (Cons c cs)
  show ?case
  proof (cases "py_isspace c")
    case True
    with Cons.prems have "b = cur \<or> b \<in> set (bursts_from [] cs)"
      by (simp split: if_splits)
    then show ?thesis
    proof
      assume "b = cur"
      then show ?thesis by auto
    next
      assume "b \<in> set (bursts_from [] cs)"
      from Cons.IH[OF this] show ?thesis by auto
    qed
  next
    case False
    with Cons.prems have "b \<in> set (bursts_from (cur @ [c]) cs)" by simp
    from Cons.IH[OF this] show ?thesis by auto
  qed
qed

lemma tokenize_no_letter:
  assumes "\<forall>c\<in>set t. \<not> is_alpha_or_paren c"
  shows "tokenize_pgnstring t = []"
proof -
  have "strip_leading_movenumber_indication b = []" if "b \<in> set (py_split t)" for b
  proof -
    from that have "set b \<subseteq> set t"
      using bursts_from_subset[of b "[]" t] by (simp add: py_split_bursts whitespace_bursts_def)
    with assms have "\<forall>c\<in>set b. \<not> is_alpha_or_paren c" by blast
    then show ?thesis by (simp add: strip_leading_dropWhile)
  qed
  then show ?thesis
    by (simp add: tokenize_pgnstring_def filter_empty_conv)
qed

lemma depth_strip_fault:
  "depth_strip p d opened xs = Inl e \<Longrightarrow> e \<noteq> EmptyMovetext"
proof (induction xs arbitrary: p d opened)
  case Nil
  then show ?case by (auto split: if_splits)
next
  case (Cons c cs)
  consider (left) "c = CHR ''{''" | (right) "c = CHR ''}''" | (other) "\<not> is_brace c"
    by (auto simp: is_brace_def)
  then show ?case
  proof cases
    case left
    with Cons.prems have "depth_strip (Suc p) (Suc d) (if d = 0 then p else opened) cs = Inl e"
      by simp
    from Cons.IH[OF this] show ?thesis .
  next
    case right
    show ?thesis
    proof (cases "d = 0")
      case True
      with right Cons.prems show ?thesis by auto
    next
      case False
      with right Cons.prems have "depth_strip (Suc p) (d - 1) opened cs = Inl e" by simp
      from Cons.IH[OF this] show ?thesis .
    qed
  next
    case other
    then have ne: "c \<noteq> CHR ''{''" "c \<noteq> CHR ''}''" by (auto simp: is_brace_def)
    show ?thesis
    proof (cases "d = 0")
      case True
      with Cons.prems ne have "depth_strip (Suc p) 0 opened cs = Inl e"
        by (cases "depth_strip (Suc p) 0 opened cs") auto
      from Cons.IH[OF this] show ?thesis .
    next
      case False
      with Cons.prems ne have "depth_strip (Suc p) d opened cs = Inl e" by simp
      from Cons.IH[OF this] show ?thesis .
    qed
  qed
qed

lemma extract_fault:
  "extract_game_1_movetext locator s = Inl e \<Longrightarrow> e = MissingHeaderSeparator"
  by (auto simp: extract_game_1_movetext_def pgn_error_no_blank_line_after_headers_def
                 fatal_pgn_error_def Let_def
           split: prod.splits option.splits)

text \<open>
  Claim C9.  The emptiness check of \<^verbatim>\<open>clean_and_parse_string_read_from_file\<close> looks at the
  brace-stripped movetext before it is tokenized and fires exactly when that text is the
  empty string.  So a brace-stripped movetext that is not empty but holds no letter and no
  parenthesis (whitespace only, or bursts that strip to nothing) raises no fault and gives
  the empty token list; the movetext \<^verbatim>\<open>*\<close> and an annotation followed by a space are
  such inputs.
\<close>

theorem pipeline_may_return_no_token:
  "(extract_game_1_movetext locator s = Inr m \<and> strip_balanced_braces_from_string m = Inr t \<longrightarrow>
      clean_and_parse_string_read_from_file locator s
        = (if t = [] then Inl EmptyMovetext else Inr (tokenize_pgnstring t)))
   \<and> (clean_and_parse_string_read_from_file locator s = Inl EmptyMovetext \<longrightarrow>
        (\<exists>m'. extract_game_1_movetext locator s = Inr m'
              \<and> strip_balanced_braces_from_string m' = Inr []))
   \<and> (extract_game_1_movetext locator s = Inr m \<and> strip_balanced_braces_from_string m = Inr t
        \<and> t \<noteq> [] \<and> (\<forall>c\<in>set t. \<not> is_alpha_or_paren c) \<longrightarrow>
      clean_and_parse_string_read_from_file locator s = Inr [])
   \<and> clean_and_parse_string_read_from_file (\<lambda>text. (Some 0, None)) ''*'' = Inr []
   \<and> clean_and_parse_string_read_from_file (\<lambda>text. (Some 0, None)) ''{x} '' = Inr []"
proof -
  have a: "clean_and_parse_string_read_from_file locator s
        = (if t = [] then Inl EmptyMovetext else Inr (tokenize_pgnstring t))"
    if "extract_game_1_movetext locator s = Inr m" "strip_balanced_braces_from_string m = Inr t"
    using that by (simp add: clean_and_parse_string_read_from_file_def fatal_pgn_error_def)
  have b: "\<exists>m'. extract_game_1_movetext locator s = Inr m'
              \<and> strip_balanced_braces_from_string m' = Inr []"
    if cl: "clean_and_parse_string_read_from_file locator s = Inl EmptyMovetext"
  proof (cases "extract_game_1_movetext locator s")
    case (Inl e)
    with extract_fault[OF Inl] cl show ?thesis
      by (simp add: clean_and_parse_string_read_from_file_def)
  next
    case (Inr m')
    show ?thesis
    proof (cases "strip_balanced_braces_from_string m'")
      case (Inl e)
      then have "e \<noteq> EmptyMovetext"
        using depth_strip_fault[of 0 0 0 m' e] by (simp add: strip_is_depth_strip)
      with Inl Inr cl show ?thesis
        by (simp add: clean_and_parse_string_read_from_file_def)
    next
      case inr: (Inr t')
      with Inr cl have "t' = []"
        by (simp add: clean_and_parse_string_read_from_file_def split: if_splits)
      with Inr inr show ?thesis by simp
    qed
  qed
  have c: "clean_and_parse_string_read_from_file locator s = Inr []"
    if "extract_game_1_movetext locator s = Inr m" "strip_balanced_braces_from_string m = Inr t"
       "t \<noteq> []" "\<forall>c\<in>set t. \<not> is_alpha_or_paren c"
    using a[OF that(1,2)] that(3) tokenize_no_letter[OF that(4)] by simp
  have d: "clean_and_parse_string_read_from_file (\<lambda>text. (Some 0, None)) ''*'' = Inr []"
    by code_simp
  have e: "clean_and_parse_string_read_from_file (\<lambda>text. (Some 0, None)) ''{x} '' = Inr []"
    by code_simp
  from a b c d e show ?thesis by blast
qed

theorem pipeline_may_return_no_token_witness:
  "extract_game_1_movetext (\<lambda>text. (Some 0, None)) ''{x} '' = Inr ''{x} ''
   \<and> strip_balanced_braces_from_string ''{x} '' = Inr '' ''
   \<and> '' '' \<noteq> [] \<and> \<not> is_alpha_or_paren CHR '' ''
   \<and> clean_and_parse_string_read_from_file (\<lambda>text. (Some 0, None)) ''{x} '' = Inr []"
proof -
  have ex: "extract_game_1_movetext (\<lambda>text. (Some 0, None)) ''{x} '' = Inr ''{x} ''"
    by code_simp
  have st: "strip_balanced_braces_from_string ''{x} '' = Inr '' ''" by code_simp
  have ne: "'' '' \<noteq> []" by simp
  have sp: "\<not> is_alpha_or_paren CHR '' ''" by code_simp
  then have all: "\<forall>c\<in>set '' ''. \<not> is_alpha_or_paren c" by simp
  note t = pipeline_may_return_no_token[where locator = "\<lambda>text. (Some 0, None)"
             and s = "''{x} ''" and m = "''{x} ''" and t = "'' ''"]
  have res: "clean_and_parse_string_read_from_file (\<lambda>text. (Some 0, None)) ''{x} '' = Inr []"
    by (rule mp[OF conjunct1[OF conjunct2[OF conjunct2[OF t]]]
                   conjI[OF ex conjI[OF st conjI[OF ne all]]]])
  show ?thesis by (rule conjI[OF ex conjI[OF st conjI[OF ne conjI[OF sp res]]]])
qed

end
